theory Spec2Isabelle
  imports Main "HOL-Library.Sublist" "HOL-Library.List_Lexorder" "HOL-Library.Word"
begin

section \<open>Python values used by mlist.py\<close>

text \<open>
  A Python \<open>str\<close> is a sequence of Unicode code points, a \<open>bytes\<close> object a sequence of
  octets, and Python integers are unbounded. \<open>str\<close> abbreviates the code points of an
  ASCII literal.
\<close>

type_synonym pystr = "nat list"
type_synonym pybytes = "8 word list"

abbreviation str :: "string \<Rightarrow> pystr" where
  "str s \<equiv> map of_char s"

datatype error = ValueError | IOError | UnicodeDecodeError | IndexError | CursesError

text \<open>\<open>xs[i]\<close> on a Python list: a negative index counts from the end, an index outside
  \<open>[-len, len)\<close> raises IndexError.\<close>

definition py_getitem :: "'a list \<Rightarrow> int \<Rightarrow> error + 'a" where
  "py_getitem xs i =
     (if 0 \<le> i \<and> i < int (length xs) then Inr (xs ! nat i)
      else if - int (length xs) \<le> i \<and> i < 0 then Inr (xs ! nat (int (length xs) + i))
      else Inl IndexError)"

text \<open>\<open>a in b\<close> on two strings: \<open>a\<close> occurs in \<open>b\<close> as a contiguous run.\<close>

definition py_in :: "pystr \<Rightarrow> pystr \<Rightarrow> bool" where
  "py_in a b = sublist a b"

section \<open>Viewer state\<close>

record ViewerState =
  lines :: "pystr list"
  filename :: pystr
  total :: int
  cur :: int
  top :: int
  hscroll :: int
  show_linenums :: bool
  search_q :: "pystr option"

definition ViewerState_init :: "pystr list \<Rightarrow> pystr \<Rightarrow> ViewerState" where
  "ViewerState_init ls fname =
     \<lparr>lines = ls, filename = fname, total = int (length ls), cur = 0, top = 0,
      hscroll = 0, show_linenums = False, search_q = None\<rparr>"

definition clamp :: "int \<Rightarrow> int \<Rightarrow> int \<Rightarrow> int" where
  "clamp n lo hi = max lo (min hi n)"

section \<open>Search\<close>

text \<open>
  \<open>search_forward\<close> and \<open>search_backward\<close> test \<open>query.lower() in state.lines[i].lower()\<close>.
  \<open>str.lower\<close> is the Unicode lower-casing of the Python runtime; the model takes it as the
  parameter \<open>lower\<close>, so every result below holds for whatever table the runtime uses.
  The \<open>for\<close> loops over \<open>range(start_line, state.total)\<close> and
  \<open>range(start_line, -1, -1)\<close> are the two recursions on the loop index.
\<close>

function forward_scan ::
  "(pystr \<Rightarrow> pystr) \<Rightarrow> ViewerState \<Rightarrow> pystr \<Rightarrow> int \<Rightarrow> error + int" where
  "forward_scan lower state query i =
     (if i < total state then
        (case py_getitem (lines state) i of
           Inl e \<Rightarrow> Inl e
         | Inr line \<Rightarrow>
             if py_in (lower query) (lower line) then Inr i
             else forward_scan lower state query (i + 1))
      else Inr (- 1))"
  by pat_completeness auto
termination
  by (relation "measure (\<lambda>(lower, state, query, i). nat (total state - i))") auto

function backward_scan ::
  "(pystr \<Rightarrow> pystr) \<Rightarrow> ViewerState \<Rightarrow> pystr \<Rightarrow> int \<Rightarrow> error + int" where
  "backward_scan lower state query i =
     (if i > - 1 then
        (case py_getitem (lines state) i of
           Inl e \<Rightarrow> Inl e
         | Inr line \<Rightarrow>
             if py_in (lower query) (lower line) then Inr i
             else backward_scan lower state query (i - 1))
      else Inr (- 1))"
  by pat_completeness auto
termination
  by (relation "measure (\<lambda>(lower, state, query, i). nat (i + 1))") auto

declare forward_scan.simps [simp del] backward_scan.simps [simp del]

text \<open>The optional argument \<open>start_line\<close> defaults to \<open>None\<close>, which stands for the line after
  (forward) or before (backward) the current one.\<close>

definition search_forward ::
  "(pystr \<Rightarrow> pystr) \<Rightarrow> ViewerState \<Rightarrow> pystr \<Rightarrow> int option \<Rightarrow> error + int" where
  "search_forward lower state query start_line =
     forward_scan lower state query
       (case start_line of None \<Rightarrow> cur state + 1 | Some s \<Rightarrow> s)"

definition search_backward ::
  "(pystr \<Rightarrow> pystr) \<Rightarrow> ViewerState \<Rightarrow> pystr \<Rightarrow> int option \<Rightarrow> error + int" where
  "search_backward lower state query start_line =
     backward_scan lower state query
       (case start_line of None \<Rightarrow> cur state - 1 | Some s \<Rightarrow> s)"

section \<open>Main viewer loop\<close>

text \<open>Key codes: \<open>ord(c)\<close> of the characters the loops test, and the ncurses values of the
  \<open>curses.KEY_*\<close> constants.\<close>

definition KEY_DOWN :: int where "KEY_DOWN = 258"
definition KEY_UP :: int where "KEY_UP = 259"
definition KEY_LEFT :: int where "KEY_LEFT = 260"
definition KEY_RIGHT :: int where "KEY_RIGHT = 261"
definition KEY_HOME :: int where "KEY_HOME = 262"
definition KEY_BACKSPACE :: int where "KEY_BACKSPACE = 263"
definition KEY_NPAGE :: int where "KEY_NPAGE = 338"
definition KEY_PPAGE :: int where "KEY_PPAGE = 339"
definition KEY_ENTER :: int where "KEY_ENTER = 343"
definition KEY_END :: int where "KEY_END = 360"

definition ord :: "char \<Rightarrow> int" where
  "ord c = of_char c"

text \<open>
  One pass of the \<open>while True\<close> loop of \<open>run\<close> reads the terminal height \<open>maxy\<close>, restores the
  viewport, draws, and reads a key \<open>ch\<close>. The terminal is the environment: what it
  supplies in one pass is a \<open>key_input\<close>. \<open>reply\<close> is the outcome of the search prompt
  of lines 218 to 222 and 229 to 233, which only the \<open>'/'\<close> and \<open>'?'\<close> branches run: the
  text \<open>stdscr.getstr().decode('utf-8')\<close>, or the exception the prompt raises, which
  leaves \<open>run\<close> uncaught: \<open>curses.error\<close> (here \<open>CursesError\<close>) from the unguarded
  \<open>stdscr.addstr\<close>, or \<open>UnicodeDecodeError\<close> from the strict \<open>decode\<close> when the bytes typed
  are not UTF-8. Drawing writes to the screen and changes no field of the state.
\<close>

record key_input =
  maxy :: int
  ch :: int
  reply :: "error + pystr"

text \<open>Lines 187 to 190: the viewport rule at the top of the loop.\<close>

definition viewport_adjust :: "int \<Rightarrow> ViewerState \<Rightarrow> ViewerState" where
  "viewport_adjust my state =
     (if cur state < top state then state\<lparr>top := cur state\<rparr>
      else if cur state \<ge> top state + my - 1 then state\<lparr>top := cur state - my + 2\<rparr>
      else state)"

text \<open>The viewport height of the specification: all rows but the status row.\<close>

definition viewport_height :: "int \<Rightarrow> int" where
  "viewport_height my = my - 1"

datatype step_result = Quit | Next ViewerState | Raised error

text \<open>Python truthiness of \<open>state.search_q\<close>, an \<open>Optional[str]\<close>.\<close>

definition truthy :: "pystr option \<Rightarrow> bool" where
  "truthy q = (case q of None \<Rightarrow> False | Some s \<Rightarrow> s \<noteq> [])"

text \<open>Lines 217 to 242: the three search branches. The query is stored before the search
  runs; the position changes only when the search result is not \<open>-1\<close>.\<close>

definition jump_to :: "ViewerState \<Rightarrow> error + int \<Rightarrow> step_result" where
  "jump_to state res =
     (case res of
        Inl e \<Rightarrow> Raised e
      | Inr result \<Rightarrow> Next (if result \<noteq> - 1 then state\<lparr>cur := result\<rparr> else state))"

definition key_slash :: "(pystr \<Rightarrow> pystr) \<Rightarrow> pystr \<Rightarrow> ViewerState \<Rightarrow> step_result" where
  "key_slash lower query state =
     (if query \<noteq> [] then
        (let state1 = state\<lparr>search_q := Some query\<rparr>
         in jump_to state1 (search_forward lower state1 query (Some (cur state1))))
      else Next state)"

definition key_question :: "(pystr \<Rightarrow> pystr) \<Rightarrow> pystr \<Rightarrow> ViewerState \<Rightarrow> step_result" where
  "key_question lower query state =
     (if query \<noteq> [] then
        (let state1 = state\<lparr>search_q := Some query\<rparr>
         in jump_to state1 (search_backward lower state1 query (Some (cur state1))))
      else Next state)"

definition key_F :: "(pystr \<Rightarrow> pystr) \<Rightarrow> ViewerState \<Rightarrow> step_result" where
  "key_F lower state =
     (case search_q state of
        None \<Rightarrow> Next state
      | Some query \<Rightarrow> jump_to state (search_forward lower state query (Some (cur state + 1))))"

text \<open>Lines 194 to 242: the \<open>if\<close>/\<open>elif\<close> chain on the key, in the source's order. A key that
  matches no branch leaves the state as it is.\<close>

definition handle_key :: "(pystr \<Rightarrow> pystr) \<Rightarrow> key_input \<Rightarrow> ViewerState \<Rightarrow> step_result" where
  "handle_key lower inp state =
     (let c = ch inp; my = maxy inp in
      if c \<in> {ord CHR ''q'', ord CHR ''Q'', 27} then Quit
      else if c \<in> {KEY_UP, ord CHR ''k''} then
        Next (state\<lparr>cur := clamp (cur state - 1) 0 (total state - 1)\<rparr>)
      else if c \<in> {KEY_DOWN, ord CHR ''j''} then
        Next (state\<lparr>cur := clamp (cur state + 1) 0 (total state - 1)\<rparr>)
      else if c \<in> {KEY_LEFT, ord CHR ''h''} then
        Next (state\<lparr>hscroll := clamp (hscroll state - 1) 0 1000\<rparr>)
      else if c \<in> {KEY_RIGHT, ord CHR ''l''} then
        Next (state\<lparr>hscroll := clamp (hscroll state + 1) 0 1000\<rparr>)
      else if c \<in> {KEY_PPAGE, ord CHR ''b''} then
        Next (state\<lparr>cur := clamp (cur state - (my - 2)) 0 (total state - 1)\<rparr>)
      else if c \<in> {KEY_NPAGE, ord CHR '' ''} then
        Next (state\<lparr>cur := clamp (cur state + (my - 2)) 0 (total state - 1)\<rparr>)
      else if c \<in> {KEY_HOME, ord CHR ''g''} then Next (state\<lparr>cur := 0\<rparr>)
      else if c \<in> {KEY_END, ord CHR ''G''} then Next (state\<lparr>cur := total state - 1\<rparr>)
      else if c = ord CHR ''n'' then Next (state\<lparr>show_linenums := \<not> show_linenums state\<rparr>)
      else if c = ord CHR ''/'' then
        (case reply inp of Inl e \<Rightarrow> Raised e | Inr query \<Rightarrow> key_slash lower query state)
      else if c = ord CHR ''?'' then
        (case reply inp of Inl e \<Rightarrow> Raised e | Inr query \<Rightarrow> key_question lower query state)
      else if c = ord CHR ''F'' \<and> truthy (search_q state) then key_F lower state
      else Next state)"

definition run_iter :: "(pystr \<Rightarrow> pystr) \<Rightarrow> key_input \<Rightarrow> ViewerState \<Rightarrow> step_result" where
  "run_iter lower inp state = handle_key lower inp (viewport_adjust (maxy inp) state)"

text \<open>\<open>run\<close> on the keys the terminal delivers, as far as they go: \<open>Quit\<close> when a quit key
  ended the loop, \<open>Raised\<close> when a pass raised, and otherwise the state in which the loop
  waits for its next key.\<close>

fun run_loop :: "(pystr \<Rightarrow> pystr) \<Rightarrow> key_input list \<Rightarrow> ViewerState \<Rightarrow> step_result" where
  "run_loop lower [] state = Next state"
| "run_loop lower (inp # inps) state =
     (case run_iter lower inp state of
        Next state' \<Rightarrow> run_loop lower inps state'
      | Quit \<Rightarrow> Quit
      | Raised e \<Rightarrow> Raised e)"

definition run :: "(pystr \<Rightarrow> pystr) \<Rightarrow> key_input list \<Rightarrow> pystr list \<Rightarrow> pystr \<Rightarrow> step_result" where
  "run lower inps ls fname = run_loop lower inps (ViewerState_init ls fname)"

text \<open>
  The class invariant of \<open>ViewerState\<close>: \<open>total\<close> is set to \<open>len(lines)\<close> by the constructor and
  neither field is assigned again. A valid viewer state moreover has its current index
  inside the buffer and its horizontal offset inside \<open>[0, 1000]\<close>.
\<close>

definition state_wf :: "ViewerState \<Rightarrow> bool" where
  "state_wf state = (total state = int (length (lines state)))"

definition viewer_inv :: "ViewerState \<Rightarrow> bool" where
  "viewer_inv state =
     (state_wf state \<and> 0 \<le> cur state \<and> cur state \<le> total state - 1
      \<and> 0 \<le> hscroll state \<and> hscroll state \<le> 1000)"

text \<open>The test both searches apply to line \<open>j\<close>:
  \<open>query.lower() in state.lines[j].lower()\<close>.\<close>

definition line_matches :: "(pystr \<Rightarrow> pystr) \<Rightarrow> ViewerState \<Rightarrow> pystr \<Rightarrow> int \<Rightarrow> bool" where
  "line_matches lower state query j = py_in (lower query) (lower (lines state ! nat j))"

section \<open>Directory browser\<close>

text \<open>
  \<open>browse_dir\<close> keeps three variables: the directory \<open>path\<close>, the entry list \<open>entries\<close> and
  the selected index \<open>idx\<close>. Each pass of its loop lists the directory again, draws, and
  reads one key. The environment of one pass is a \<open>browse_input\<close>: the terminal height,
  what \<open>os.listdir(path)\<close> yields at that moment (\<open>None\<close> when it raises), which paths
  \<open>os.path.isdir\<close> accepts, and the key. \<open>os.path.join\<close> and \<open>os.path.dirname\<close> depend on the
  platform and are the parameter \<open>os\<close>.
\<close>

record BrowserState =
  path :: pystr
  entries :: "pystr list"
  idx :: int

record browse_input =
  b_maxy :: int
  listdir :: "pystr list option"
  isdir :: "pystr \<Rightarrow> bool"
  b_ch :: int

record os_path =
  join :: "pystr \<Rightarrow> pystr \<Rightarrow> pystr"
  dirname :: "pystr \<Rightarrow> pystr"

datatype browse_result = Exited int | Selected pystr | Browsing BrowserState | Crashed error

text \<open>Lines 71 to 74. \<open>sorted\<close> orders strings by code point, lexicographically.\<close>

definition list_entries :: "pystr list option \<Rightarrow> pystr list" where
  "list_entries l = (case l of Some names \<Rightarrow> str ''..'' # sort names | None \<Rightarrow> [str ''..''])"

text \<open>The slice \<open>xs[:n]\<close>: a negative \<open>n\<close> counts from the end.\<close>

definition py_slice_to :: "'a list \<Rightarrow> int \<Rightarrow> 'a list" where
  "py_slice_to xs n = (if 0 \<le> n then take (nat n) xs else take (nat (int (length xs) + n)) xs)"

text \<open>Lines 76 to 84: the rows drawn, each with its text and whether it is drawn in
  reverse video, that is, as the selected entry.\<close>

definition render_rows ::
  "os_path \<Rightarrow> browse_input \<Rightarrow> pystr \<Rightarrow> pystr list \<Rightarrow> int \<Rightarrow> (pystr \<times> bool) list" where
  "render_rows os inp p es i =
     map (\<lambda>(k, name). (name @ (if isdir inp (join os p name) then str ''/'' else []), int k = i))
       (enumerate 0 (py_slice_to es (b_maxy inp - 1)))"

text \<open>Lines 89 to 109: the key branches, after the listing of this pass.\<close>

definition browse_iter :: "os_path \<Rightarrow> browse_input \<Rightarrow> BrowserState \<Rightarrow> browse_result" where
  "browse_iter os inp b =
     (let es = list_entries (listdir inp); c = b_ch inp in
      if c \<in> {ord CHR ''q'', 27} then Exited 0
      else if c \<in> {KEY_UP, ord CHR ''k''} then
        Browsing (b\<lparr>entries := es, idx := clamp (idx b - 1) 0 (int (length es) - 1)\<rparr>)
      else if c \<in> {KEY_DOWN, ord CHR ''j''} then
        Browsing (b\<lparr>entries := es, idx := clamp (idx b + 1) 0 (int (length es) - 1)\<rparr>)
      else if c \<in> {KEY_ENTER, 10, 13} then
        (case py_getitem es (idx b) of
           Inl e \<Rightarrow> Crashed e
         | Inr sel \<Rightarrow>
             (let full = join os (path b) sel in
              if sel = str ''..'' then
                Browsing (b\<lparr>path := dirname os (path b), entries := es, idx := 0\<rparr>)
              else if isdir inp full then Browsing (b\<lparr>path := full, entries := es, idx := 0\<rparr>)
              else Selected full))
      else if c \<in> {KEY_BACKSPACE, 127, 8} then
        Browsing (b\<lparr>path := dirname os (path b), entries := es, idx := 0\<rparr>)
      else Browsing (b\<lparr>entries := es\<rparr>))"

fun browse_loop :: "os_path \<Rightarrow> browse_input list \<Rightarrow> BrowserState \<Rightarrow> browse_result" where
  "browse_loop os [] b = Browsing b"
| "browse_loop os (inp # inps) b =
     (case browse_iter os inp b of
        Browsing b' \<Rightarrow> browse_loop os inps b'
      | Exited n \<Rightarrow> Exited n
      | Selected f \<Rightarrow> Selected f
      | Crashed e \<Rightarrow> Crashed e)"

text \<open>\<open>browse_dir\<close> from the absolute path \<open>os.path.abspath(start_path)\<close>, on the passes the
  environment delivers.\<close>

definition browse_dir :: "os_path \<Rightarrow> browse_input list \<Rightarrow> pystr \<Rightarrow> browse_result" where
  "browse_dir os inps abs_path = browse_loop os inps \<lparr>path = abs_path, entries = [], idx = 0\<rparr>"

text \<open>The claim about the browser: whenever a pass draws its rows or opens the selected
  entry, the index is inside the list of that pass.\<close>

definition idx_in_entries :: "browse_input \<Rightarrow> BrowserState \<Rightarrow> bool" where
  "idx_in_entries inp b =
     (0 \<le> idx b \<and> idx b \<le> int (length (list_entries (listdir inp))) - 1)"

text \<open>\<open>os.path\<close> on POSIX, for the examples.\<close>

definition posix_join :: "pystr \<Rightarrow> pystr \<Rightarrow> pystr" where
  "posix_join a b =
     (if b \<noteq> [] \<and> hd b = 47 then b
      else if a = [] \<or> last a = 47 then a @ b
      else a @ [47] @ b)"

definition posix_dirname :: "pystr \<Rightarrow> pystr" where
  "posix_dirname p =
     (let head = rev (dropWhile (\<lambda>c. c \<noteq> 47) (rev p))
      in if head \<noteq> [] \<and> \<not> list_all (\<lambda>c. c = 47) head
         then rev (dropWhile (\<lambda>c. c = 47) (rev head)) else head)"

definition posix :: os_path where
  "posix = \<lparr>join = posix_join, dirname = posix_dirname\<rparr>"

section \<open>Text loader\<close>

text \<open>
  \<open>str.splitlines()\<close>: the text is cut at LF, CR, CR LF, VT, FF, FS, GS, RS, NEL (U+0085),
  U+2028 and U+2029; the terminators are dropped and a terminator at the very end opens
  no further line. \<open>acc\<close> holds the current line, reversed.
\<close>

definition is_linebreak :: "nat \<Rightarrow> bool" where
  "is_linebreak c = (c \<in> {10, 13, 11, 12, 28, 29, 30, 133, 8232, 8233})"

fun splitlines_from :: "pystr \<Rightarrow> pystr \<Rightarrow> pystr list" where
  "splitlines_from acc [] = (if acc = [] then [] else [rev acc])"
| "splitlines_from acc [c] = (if is_linebreak c then [rev acc] else [rev (c # acc)])"
| "splitlines_from acc (c # d # cs) =
     (if c = 13 \<and> d = 10 then rev acc # splitlines_from [] cs
      else if is_linebreak c then rev acc # splitlines_from [] (d # cs)
      else splitlines_from (c # acc) (d # cs))"

definition splitlines :: "pystr \<Rightarrow> pystr list" where
  "splitlines data = splitlines_from [] data"

text \<open>
  What \<open>read_text\<close> takes from the runtime: \<open>open_read p\<close> is the content of
  \<open>open(p, "rb")\<close> followed by \<open>f.read()\<close>, or \<open>None\<close> when either raises \<open>OSError\<close>, of
  which \<open>IOError\<close> is an alias (the path is missing, unreadable or a directory);
  \<open>stdin_read\<close> is the outcome of \<open>sys.stdin.read()\<close>: \<open>sys.stdin\<close> is a text stream, which
  decodes with its own encoding and error handler and so returns text or raises;
  \<open>decode_replace\<close> is \<open>raw.decode("utf-8", errors="replace")\<close>, a total function.
\<close>

record pyio =
  open_read :: "pystr \<Rightarrow> pybytes option"
  stdin_read :: "error + pystr"
  decode_replace :: "pybytes \<Rightarrow> pystr"

definition read_text :: "pyio \<Rightarrow> pystr option \<Rightarrow> error + pystr list" where
  "read_text io p =
     (case p of
        None \<Rightarrow> Inl ValueError
      | Some name \<Rightarrow>
          (case (if name = str ''-'' then stdin_read io
                 else (case open_read io name of
                         None \<Rightarrow> Inl IOError
                       | Some raw \<Rightarrow> Inr (decode_replace io raw))) of
             Inl e \<Rightarrow> Inl e
           | Inr data \<Rightarrow>
               (let ls = splitlines data in Inr (if ls = [] then [[]] else ls))))"

section \<open>Example data\<close>

text \<open>\<open>str.lower\<close> on ASCII text, where it changes the letters \<open>A\<close> to \<open>Z\<close> only.\<close>

definition ascii_lower :: "pystr \<Rightarrow> pystr" where
  "ascii_lower s = map (\<lambda>c. if 65 \<le> c \<and> c \<le> 90 then c + 32 else c) s"

text \<open>UTF-8 decoding with \<open>errors="replace"\<close> on bytes below \<open>0x80\<close>; a byte from \<open>0x80\<close> on
  that starts no valid sequence becomes U+FFFD.\<close>

definition decode_ascii :: "pybytes \<Rightarrow> pystr" where
  "decode_ascii raw = map (\<lambda>b. if unat b < 128 then unat b else 65533) raw"

definition demo_lines :: "pystr list" where
  "demo_lines = [str ''alpha'', str ''Beta'', str ''gamma'']"

definition demo_state :: ViewerState where
  "demo_state = ViewerState_init demo_lines (str ''demo.txt'')"

definition demo_io :: "pybytes \<Rightarrow> error + pystr \<Rightarrow> pyio" where
  "demo_io content stdin =
     \<lparr>open_read = (\<lambda>p. if p = str ''a.txt'' then Some content else None),
      stdin_read = stdin, decode_replace = decode_ascii\<rparr>"

text \<open>A key pressed at terminal height \<open>my\<close>, with the text typed at the prompt, and a key
  whose prompt raises.\<close>

definition press :: "int \<Rightarrow> int \<Rightarrow> pystr \<Rightarrow> key_input" where
  "press my c q = \<lparr>maxy = my, ch = c, reply = Inr q\<rparr>"

definition press_raising :: "int \<Rightarrow> int \<Rightarrow> error \<Rightarrow> key_input" where
  "press_raising my c e = \<lparr>maxy = my, ch = c, reply = Inl e\<rparr>"

definition browse_press :: "pystr list option \<Rightarrow> int \<Rightarrow> browse_input" where
  "browse_press l c = \<lparr>b_maxy = 24, listdir = l, isdir = (\<lambda>p. False), b_ch = c\<rparr>"

section \<open>Viewport rule\<close>

lemmas key_defs = KEY_DOWN_def KEY_UP_def KEY_LEFT_def KEY_RIGHT_def KEY_HOME_def
  KEY_BACKSPACE_def KEY_NPAGE_def KEY_PPAGE_def KEY_ENTER_def KEY_END_def ord_def

text \<open>
  C1. For every viewer state and every terminal height of at least 2, after the
  viewport rule at the top of the main loop the current index lies between the top index
  and the top index plus the viewport height minus one; the rule moves only the top index.
\<close>

theorem viewport_adjust_reveals_cur:
  assumes "2 \<le> my"
  shows "top (viewport_adjust my state) \<le> cur (viewport_adjust my state)
       \<and> cur (viewport_adjust my state) \<le> top (viewport_adjust my state) + viewport_height my - 1
       \<and> cur (viewport_adjust my state) = cur state"
  using assms by (simp add: viewport_adjust_def viewport_height_def)


theorem viewport_adjust_reveals_cur_witness:
  "(2::int) \<le> 3
   \<and> top (viewport_adjust 3 (demo_state\<lparr>cur := 2\<rparr>)) = 1
   \<and> top (viewport_adjust 3 (demo_state\<lparr>cur := 2\<rparr>)) \<le> cur (viewport_adjust 3 (demo_state\<lparr>cur := 2\<rparr>))
   \<and> cur (viewport_adjust 3 (demo_state\<lparr>cur := 2\<rparr>))
        \<le> top (viewport_adjust 3 (demo_state\<lparr>cur := 2\<rparr>)) + viewport_height 3 - 1"
proof -
  have h: "(2::int) \<le> 3" by simp
  have t: "top (viewport_adjust 3 (demo_state\<lparr>cur := 2\<rparr>)) = 1"
    by (simp add: viewport_adjust_def demo_state_def ViewerState_init_def)
  from viewport_adjust_reveals_cur [OF h, of "demo_state\<lparr>cur := 2\<rparr>"] t h
  show ?thesis by simp
qed

section \<open>Search\<close>

lemma py_getitem_in_range:
  "0 \<le> i \<Longrightarrow> i < int (length xs) \<Longrightarrow> py_getitem xs i = Inr (xs ! nat i)"
  by (simp add: py_getitem_def)

lemma forward_scan_spec:
  assumes "state_wf state" "0 \<le> i"
  shows "\<exists>r. forward_scan lower state query i = Inr r \<and>
           ((r = - 1 \<and> (\<forall>j. i \<le> j \<and> j < total state \<longrightarrow> \<not> line_matches lower state query j))
            \<or> (i \<le> r \<and> r < total state \<and> line_matches lower state query r
                \<and> (\<forall>j. i \<le> j \<and> j < r \<longrightarrow> \<not> line_matches lower state query j)))"
  using assms
proof (induction lower state query i rule: forward_scan.induct)
  case (1 lower state query i)
  show ?case
  proof (cases "i < total state")
    case False
    then have "forward_scan lower state query i = Inr (- 1)"
      by (simp add: forward_scan.simps [of lower state query i])
    with False show ?thesis by auto
  next
    case True
    with 1 have g: "py_getitem (lines state) i = Inr (lines state ! nat i)"
      by (simp add: py_getitem_in_range state_wf_def)
    show ?thesis
    proof (cases "line_matches lower state query i")
      case m: True
      then have "forward_scan lower state query i = Inr i"
        using True g by (simp add: forward_scan.simps [of lower state query i] line_matches_def)
      with m True show ?thesis by auto
    next
      case m: False
      then have eq: "forward_scan lower state query i = forward_scan lower state query (i + 1)"
        using True g by (simp add: forward_scan.simps [of lower state query i] line_matches_def)
      from m have nm: "\<not> py_in (lower query) (lower (lines state ! nat i))"
        by (simp add: line_matches_def)
      from "1.IH" [OF True g nm "1.prems"(1)] "1.prems"(2)
      obtain r where r: "forward_scan lower state query (i + 1) = Inr r"
        and d: "(r = - 1 \<and> (\<forall>j. i + 1 \<le> j \<and> j < total state \<longrightarrow> \<not> line_matches lower state query j))
            \<or> (i + 1 \<le> r \<and> r < total state \<and> line_matches lower state query r
                \<and> (\<forall>j. i + 1 \<le> j \<and> j < r \<longrightarrow> \<not> line_matches lower state query j))"
        by auto
      have step: "\<And>j. i \<le> j \<Longrightarrow> j = i \<or> i + 1 \<le> j" by arith
      from d m step have "(r = - 1 \<and> (\<forall>j. i \<le> j \<and> j < total state \<longrightarrow> \<not> line_matches lower state query j))
            \<or> (i \<le> r \<and> r < total state \<and> line_matches lower state query r
                \<and> (\<forall>j. i \<le> j \<and> j < r \<longrightarrow> \<not> line_matches lower state query j))"
      proof (elim disjE conjE)
        assume "r = - 1" and a: "\<forall>j. i + 1 \<le> j \<and> j < total state \<longrightarrow> \<not> line_matches lower state query j"
        have "\<forall>j. i \<le> j \<and> j < total state \<longrightarrow> \<not> line_matches lower state query j"
          using a m step by blast
        with \<open>r = - 1\<close> show ?thesis by blast
      next
        assume b: "i + 1 \<le> r" "r < total state" "line_matches lower state query r"
          and a: "\<forall>j. i + 1 \<le> j \<and> j < r \<longrightarrow> \<not> line_matches lower state query j"
        have "\<forall>j. i \<le> j \<and> j < r \<longrightarrow> \<not> line_matches lower state query j"
          using a m step by blast
        moreover from b have "i \<le> r" by simp
        ultimately show ?thesis using b by blast
      qed
      with r eq show ?thesis by simp
    qed
  qed
qed


lemma backward_scan_spec:
  assumes "state_wf state" "i < total state"
  shows "\<exists>r. backward_scan lower state query i = Inr r \<and>
           ((r = - 1 \<and> (\<forall>j. 0 \<le> j \<and> j \<le> i \<longrightarrow> \<not> line_matches lower state query j))
            \<or> (0 \<le> r \<and> r \<le> i \<and> line_matches lower state query r
                \<and> (\<forall>j. r < j \<and> j \<le> i \<longrightarrow> \<not> line_matches lower state query j)))"
  using assms
proof (induction lower state query i rule: backward_scan.induct)
  case (1 lower state query i)
  show ?case
  proof (cases "i > - 1")
    case False
    then have "backward_scan lower state query i = Inr (- 1)"
      by (simp add: backward_scan.simps [of lower state query i])
    with False show ?thesis by auto
  next
    case True
    with 1 have g: "py_getitem (lines state) i = Inr (lines state ! nat i)"
      by (simp add: py_getitem_in_range state_wf_def)
    show ?thesis
    proof (cases "line_matches lower state query i")
      case m: True
      then have "backward_scan lower state query i = Inr i"
        using True g by (simp add: backward_scan.simps [of lower state query i] line_matches_def)
      with m True show ?thesis by auto
    next
      case m: False
      then have eq: "backward_scan lower state query i = backward_scan lower state query (i - 1)"
        using True g by (simp add: backward_scan.simps [of lower state query i] line_matches_def)
      from m have nm: "\<not> py_in (lower query) (lower (lines state ! nat i))"
        by (simp add: line_matches_def)
      from "1.prems"(2) have lt: "i - 1 < total state" by simp
      from "1.IH" [OF True g nm "1.prems"(1) lt]
      obtain r where r: "backward_scan lower state query (i - 1) = Inr r"
        and d: "(r = - 1 \<and> (\<forall>j. 0 \<le> j \<and> j \<le> i - 1 \<longrightarrow> \<not> line_matches lower state query j))
            \<or> (0 \<le> r \<and> r \<le> i - 1 \<and> line_matches lower state query r
                \<and> (\<forall>j. r < j \<and> j \<le> i - 1 \<longrightarrow> \<not> line_matches lower state query j))"
        by auto
      have step: "\<And>j. j \<le> i \<Longrightarrow> j = i \<or> j \<le> i - 1" by arith
      from d have "(r = - 1 \<and> (\<forall>j. 0 \<le> j \<and> j \<le> i \<longrightarrow> \<not> line_matches lower state query j))
            \<or> (0 \<le> r \<and> r \<le> i \<and> line_matches lower state query r
                \<and> (\<forall>j. r < j \<and> j \<le> i \<longrightarrow> \<not> line_matches lower state query j))"
      proof (elim disjE conjE)
        assume "r = - 1" and a: "\<forall>j. 0 \<le> j \<and> j \<le> i - 1 \<longrightarrow> \<not> line_matches lower state query j"
        have "\<forall>j. 0 \<le> j \<and> j \<le> i \<longrightarrow> \<not> line_matches lower state query j"
          using a m step by blast
        with \<open>r = - 1\<close> show ?thesis by blast
      next
        assume b: "0 \<le> r" "r \<le> i - 1" "line_matches lower state query r"
          and a: "\<forall>j. r < j \<and> j \<le> i - 1 \<longrightarrow> \<not> line_matches lower state query j"
        have "\<forall>j. r < j \<and> j \<le> i \<longrightarrow> \<not> line_matches lower state query j"
          using a m step by blast
        moreover from b have "r \<le> i" by simp
        ultimately show ?thesis using b by blast
      qed
      with r eq show ?thesis by simp
    qed
  qed
qed


lemma demo_state_wf: "state_wf demo_state"
  by (simp add: state_wf_def demo_state_def ViewerState_init_def demo_lines_def)

lemma demo_search_eta:
  "search_forward ascii_lower demo_state (str ''eta'') (Some 0) = Inr 1"
  by (simp add: search_forward_def forward_scan.simps demo_state_def ViewerState_init_def
      demo_lines_def py_getitem_def py_in_def ascii_lower_def sublist_code)

text \<open>
  C3. For every line buffer, query and start index inside the buffer, forward search
  returns an index and raises nothing; the index is \<open>-1\<close> exactly when no line from the
  start index to the last one passes the case-insensitive substring test, and otherwise
  it is the smallest such index.
\<close>

theorem search_forward_first_match:
  assumes "state_wf state" and "0 \<le> start" and "start \<le> total state - 1"
  shows "\<exists>r. search_forward lower state query (Some start) = Inr r
           \<and> (r = - 1 \<longleftrightarrow>
                (\<forall>j. start \<le> j \<and> j < total state \<longrightarrow> \<not> line_matches lower state query j))
           \<and> (r \<noteq> - 1 \<longrightarrow>
                start \<le> r \<and> r < total state \<and> line_matches lower state query r
                \<and> (\<forall>j. start \<le> j \<and> j < r \<longrightarrow> \<not> line_matches lower state query j))"
proof -
  from forward_scan_spec [OF assms(1,2), of lower query]
  obtain r where r: "forward_scan lower state query start = Inr r"
    and d: "(r = - 1 \<and> (\<forall>j. start \<le> j \<and> j < total state \<longrightarrow> \<not> line_matches lower state query j))
            \<or> (start \<le> r \<and> r < total state \<and> line_matches lower state query r
                \<and> (\<forall>j. start \<le> j \<and> j < r \<longrightarrow> \<not> line_matches lower state query j))"
    by blast
  have s: "search_forward lower state query (Some start) = Inr r"
    using r by (simp add: search_forward_def)
  from d show ?thesis
  proof
    assume "r = - 1 \<and> (\<forall>j. start \<le> j \<and> j < total state \<longrightarrow> \<not> line_matches lower state query j)"
    with s show ?thesis by simp
  next
    assume a: "start \<le> r \<and> r < total state \<and> line_matches lower state query r
                \<and> (\<forall>j. start \<le> j \<and> j < r \<longrightarrow> \<not> line_matches lower state query j)"
    with assms(2) have "r \<noteq> - 1" by auto
    moreover from a have "\<not> (\<forall>j. start \<le> j \<and> j < total state \<longrightarrow> \<not> line_matches lower state query j)"
      by blast
    ultimately show ?thesis using s a by simp
  qed
qed


theorem search_forward_first_match_witness:
  "state_wf demo_state \<and> (0::int) \<le> 0 \<and> 0 \<le> total demo_state - 1
   \<and> search_forward ascii_lower demo_state (str ''eta'') (Some 0) = Inr 1
   \<and> line_matches ascii_lower demo_state (str ''eta'') 1
   \<and> \<not> line_matches ascii_lower demo_state (str ''eta'') 0"
proof -
  have h2: "(0::int) \<le> 0" by simp
  have h3: "0 \<le> total demo_state - 1"
    by (simp add: demo_state_def ViewerState_init_def demo_lines_def)
  from search_forward_first_match [OF demo_state_wf h2 h3, of ascii_lower "str ''eta''"]
    demo_search_eta
  have "line_matches ascii_lower demo_state (str ''eta'') 1
        \<and> (\<forall>j. 0 \<le> j \<and> j < 1 \<longrightarrow> \<not> line_matches ascii_lower demo_state (str ''eta'') j)"
    by auto
  then show ?thesis using demo_state_wf h3 demo_search_eta by simp
qed

text \<open>
  C4. If forward search from a start index \<open>i\<close> inside the buffer finds line \<open>j\<close>, then
  \<open>i \<le> j\<close> and backward search from \<open>j\<close> finds a matching line at or before \<open>j\<close>, namely
  \<open>j\<close> itself; it does not return \<open>-1\<close>.
\<close>

theorem search_backward_after_forward:
  assumes "state_wf state" and "0 \<le> i" and "i \<le> total state - 1"
    and "search_forward lower state query (Some i) = Inr j" and "j \<noteq> - 1"
  shows "i \<le> j \<and> search_backward lower state query (Some j) = Inr j
         \<and> (\<exists>k. search_backward lower state query (Some j) = Inr k \<and> k \<noteq> - 1 \<and> k \<le> j
                \<and> line_matches lower state query k)"
proof -
  from forward_scan_spec [OF assms(1,2), of lower query] assms(4,5)
  have j: "i \<le> j" "j < total state" "line_matches lower state query j"
    by (auto simp add: search_forward_def)
  with assms(2) have j0: "0 \<le> j" by simp
  with j assms(1) have g: "py_getitem (lines state) j = Inr (lines state ! nat j)"
    by (simp add: py_getitem_in_range state_wf_def)
  have "backward_scan lower state query j = Inr j"
    using j0 g j(3) by (simp add: backward_scan.simps [of lower state query j] line_matches_def)
  then have b: "search_backward lower state query (Some j) = Inr j"
    by (simp add: search_backward_def)
  with j j0 show ?thesis by auto
qed

theorem search_backward_after_forward_witness:
  "state_wf demo_state \<and> (0::int) \<le> 0 \<and> 0 \<le> total demo_state - 1
   \<and> search_forward ascii_lower demo_state (str ''eta'') (Some 0) = Inr 1 \<and> (1::int) \<noteq> - 1
   \<and> search_backward ascii_lower demo_state (str ''eta'') (Some 1) = Inr 1"
proof -
  have h2: "(0::int) \<le> 0" by simp
  have h3: "0 \<le> total demo_state - 1"
    by (simp add: demo_state_def ViewerState_init_def demo_lines_def)
  have h5: "(1::int) \<noteq> - 1" by simp
  from search_backward_after_forward [OF demo_state_wf h2 h3 demo_search_eta h5]
  show ?thesis using demo_state_wf h3 demo_search_eta by simp
qed

section \<open>Key handling\<close>

lemma forward_scan_search_q:
  "forward_scan lower (state\<lparr>search_q := x\<rparr>) query i = forward_scan lower state query i"
proof (induction lower state query i rule: forward_scan.induct)
  case (1 lower state query i)
  show ?case
  proof (cases "i < total state")
    case False
    then show ?thesis
      by (simp add: forward_scan.simps [of lower _ query i])
  next
    case True
    show ?thesis
    proof (cases "py_getitem (lines state) i")
      case (Inl e)
      with True show ?thesis by (simp add: forward_scan.simps [of lower _ query i])
    next
      case (Inr line)
      show ?thesis
      proof (cases "py_in (lower query) (lower line)")
        case m: True
        with True Inr show ?thesis by (simp add: forward_scan.simps [of lower _ query i])
      next
        case m: False
        from "1.IH" [OF True Inr m] True Inr m show ?thesis
          by (simp add: forward_scan.simps [of lower _ query i])
      qed
    qed
  qed
qed

lemma backward_scan_search_q:
  "backward_scan lower (state\<lparr>search_q := x\<rparr>) query i = backward_scan lower state query i"
proof (induction lower state query i rule: backward_scan.induct)
  case (1 lower state query i)
  show ?case
  proof (cases "i > - 1")
    case False
    then show ?thesis
      by (simp add: backward_scan.simps [of lower _ query i])
  next
    case True
    show ?thesis
    proof (cases "py_getitem (lines state) i")
      case (Inl e)
      with True show ?thesis by (simp add: backward_scan.simps [of lower _ query i])
    next
      case (Inr line)
      show ?thesis
      proof (cases "py_in (lower query) (lower line)")
        case m: True
        with True Inr show ?thesis by (simp add: backward_scan.simps [of lower _ query i])
      next
        case m: False
        from "1.IH" [OF True Inr m] True Inr m show ?thesis
          by (simp add: backward_scan.simps [of lower _ query i])
      qed
    qed
  qed
qed

lemma key_slash_result:
  assumes "viewer_inv state" and "query \<noteq> []"
  shows "\<exists>r. search_forward lower state query (Some (cur state)) = Inr r
           \<and> key_slash lower query state
               = Next (state\<lparr>search_q := Some query, cur := (if r \<noteq> - 1 then r else cur state)\<rparr>)
           \<and> (r = - 1 \<or> cur state \<le> r \<and> r < total state)"
proof -
  from assms(1) have wf: "state_wf state" and c: "0 \<le> cur state"
    by (simp_all add: viewer_inv_def)
  from forward_scan_spec [OF wf c, of lower query]
  obtain r where r: "forward_scan lower state query (cur state) = Inr r"
    and d: "r = - 1 \<or> cur state \<le> r \<and> r < total state"
    by blast
  have "key_slash lower query state
          = Next (state\<lparr>search_q := Some query, cur := (if r \<noteq> - 1 then r else cur state)\<rparr>)"
    using assms(2) r
    by (simp add: key_slash_def Let_def search_forward_def forward_scan_search_q jump_to_def)
  with r d show ?thesis by (simp add: search_forward_def)
qed

lemma key_question_result:
  assumes "viewer_inv state" and "query \<noteq> []"
  shows "\<exists>r. search_backward lower state query (Some (cur state)) = Inr r
           \<and> key_question lower query state
               = Next (state\<lparr>search_q := Some query, cur := (if r \<noteq> - 1 then r else cur state)\<rparr>)
           \<and> (r = - 1 \<or> 0 \<le> r \<and> r \<le> cur state)"
proof -
  from assms(1) have wf: "state_wf state" and c: "cur state < total state"
    by (simp_all add: viewer_inv_def)
  from backward_scan_spec [OF wf c, of lower query]
  obtain r where r: "backward_scan lower state query (cur state) = Inr r"
    and d: "r = - 1 \<or> 0 \<le> r \<and> r \<le> cur state"
    by blast
  have "key_question lower query state
          = Next (state\<lparr>search_q := Some query, cur := (if r \<noteq> - 1 then r else cur state)\<rparr>)"
    using assms(2) r
    by (simp add: key_question_def Let_def search_backward_def backward_scan_search_q jump_to_def)
  with r d show ?thesis by (simp add: search_backward_def)
qed

lemma key_F_result:
  assumes "viewer_inv state" and "search_q state = Some query"
  shows "\<exists>r. search_forward lower state query (Some (cur state + 1)) = Inr r
           \<and> key_F lower state = Next (state\<lparr>cur := (if r \<noteq> - 1 then r else cur state)\<rparr>)
           \<and> (r = - 1 \<or> cur state < r \<and> r < total state)"
proof -
  from assms(1) have wf: "state_wf state" and c: "0 \<le> cur state + 1"
    by (simp_all add: viewer_inv_def)
  from forward_scan_spec [OF wf c, of lower query]
  obtain r where r: "forward_scan lower state query (cur state + 1) = Inr r"
    and d: "r = - 1 \<or> cur state + 1 \<le> r \<and> r < total state"
    by blast
  have "key_F lower state = Next (state\<lparr>cur := (if r \<noteq> - 1 then r else cur state)\<rparr>)"
    using assms(2) r
    by (simp add: key_F_def search_forward_def jump_to_def)
  with r d show ?thesis by (auto simp add: search_forward_def)
qed

lemma clamp_range: "lo \<le> hi \<Longrightarrow> lo \<le> clamp n lo hi \<and> clamp n lo hi \<le> hi"
  by (simp add: clamp_def)

lemma key_slash_inv:
  assumes "viewer_inv state"
  shows "\<exists>state'. key_slash lower query state = Next state' \<and> viewer_inv state'"
proof (cases "query = []")
  case True
  with assms show ?thesis by (simp add: key_slash_def)
next
  case False
  from key_slash_result [OF assms False, of lower]
  obtain r where k: "key_slash lower query state
               = Next (state\<lparr>search_q := Some query, cur := (if r \<noteq> - 1 then r else cur state)\<rparr>)"
    and d: "r = - 1 \<or> cur state \<le> r \<and> r < total state"
    by blast
  from assms d
  have "viewer_inv (state\<lparr>search_q := Some query, cur := (if r \<noteq> - 1 then r else cur state)\<rparr>)"
    by (auto simp add: viewer_inv_def state_wf_def)
  with k show ?thesis by blast
qed

lemma key_question_inv:
  assumes "viewer_inv state"
  shows "\<exists>state'. key_question lower query state = Next state' \<and> viewer_inv state'"
proof (cases "query = []")
  case True
  with assms show ?thesis by (simp add: key_question_def)
next
  case False
  from key_question_result [OF assms False, of lower]
  obtain r where k: "key_question lower query state
               = Next (state\<lparr>search_q := Some query, cur := (if r \<noteq> - 1 then r else cur state)\<rparr>)"
    and d: "r = - 1 \<or> 0 \<le> r \<and> r \<le> cur state"
    by blast
  from assms d
  have "viewer_inv (state\<lparr>search_q := Some query, cur := (if r \<noteq> - 1 then r else cur state)\<rparr>)"
    by (auto simp add: viewer_inv_def state_wf_def)
  with k show ?thesis by blast
qed

lemma key_F_inv:
  assumes "viewer_inv state"
  shows "\<exists>state'. key_F lower state = Next state' \<and> viewer_inv state'"
proof (cases "search_q state")
  case None
  with assms show ?thesis by (simp add: key_F_def)
next
  case (Some query)
  from key_F_result [OF assms Some, of lower]
  obtain r where k: "key_F lower state = Next (state\<lparr>cur := (if r \<noteq> - 1 then r else cur state)\<rparr>)"
    and d: "r = - 1 \<or> cur state < r \<and> r < total state"
    by blast
  from assms d
  have "viewer_inv (state\<lparr>cur := (if r \<noteq> - 1 then r else cur state)\<rparr>)"
    by (auto simp add: viewer_inv_def state_wf_def)
  with k show ?thesis by blast
qed


lemma inv_cur_update:
  "viewer_inv state \<Longrightarrow> 0 \<le> n \<Longrightarrow> n \<le> total state - 1 \<Longrightarrow> viewer_inv (state\<lparr>cur := n\<rparr>)"
  by (simp add: viewer_inv_def state_wf_def)

lemma inv_hscroll_update:
  "viewer_inv state \<Longrightarrow> 0 \<le> n \<Longrightarrow> n \<le> 1000 \<Longrightarrow> viewer_inv (state\<lparr>hscroll := n\<rparr>)"
  by (simp add: viewer_inv_def state_wf_def)

lemma inv_linenums_update:
  "viewer_inv (state\<lparr>show_linenums := b\<rparr>) = viewer_inv state"
  by (simp add: viewer_inv_def state_wf_def)

lemma demo_state_inv: "viewer_inv demo_state"
  by (simp add: viewer_inv_def state_wf_def demo_state_def ViewerState_init_def demo_lines_def)

text \<open>
  C2. From every viewer state whose current index is inside the buffer and whose
  horizontal offset is inside \<open>[0, 1000]\<close>, every state a key yields has the current index
  again inside the buffer and the horizontal offset again inside \<open>[0, 1000]\<close>. A quit key
  ends the loop; every other key yields such a state, unless it is \<open>'/'\<close> or \<open>'?'\<close> and the
  search prompt raises, in which case the pass raises the same exception and yields no
  state.
\<close>

theorem handle_key_keeps_ranges:
  assumes "viewer_inv state"
  shows "(\<forall>state'. handle_key lower inp state = Next state' \<longrightarrow> viewer_inv state')
         \<and> (ch inp \<in> {ord CHR ''q'', ord CHR ''Q'', 27} \<longrightarrow> handle_key lower inp state = Quit)
         \<and> (ch inp \<notin> {ord CHR ''q'', ord CHR ''Q'', 27}
              \<and> (ch inp \<in> {ord CHR ''/'', ord CHR ''?''} \<longrightarrow> (\<exists>query. reply inp = Inr query))
              \<longrightarrow> (\<exists>state'. handle_key lower inp state = Next state' \<and> viewer_inv state'))
         \<and> (\<forall>e. ch inp \<in> {ord CHR ''/'', ord CHR ''?''} \<and> reply inp = Inl e
              \<longrightarrow> handle_key lower inp state = Raised e)"
proof -
  from assms have t: "0 \<le> total state - 1" by (simp add: viewer_inv_def)
  have h: "(0::int) \<le> 1000" by simp
  have c: "\<And>n. viewer_inv (state\<lparr>cur := clamp n 0 (total state - 1)\<rparr>)"
    using clamp_range [OF t] assms by (simp add: inv_cur_update)
  have hs: "\<And>n. viewer_inv (state\<lparr>hscroll := clamp n 0 1000\<rparr>)"
    using clamp_range [OF h] assms by (simp add: inv_hscroll_update)
  have c0: "viewer_inv (state\<lparr>cur := 0\<rparr>)"
    using assms t by (simp add: inv_cur_update)
  have ce: "viewer_inv (state\<lparr>cur := total state - 1\<rparr>)"
    using assms t by (simp add: inv_cur_update)
  have sl: "\<And>query. \<exists>state'. key_slash lower query state = Next state' \<and> viewer_inv state'"
    using key_slash_inv [OF assms] .
  have qu: "\<And>query. \<exists>state'. key_question lower query state = Next state' \<and> viewer_inv state'"
    using key_question_inv [OF assms] .
  have total_case:
    "ch inp \<notin> {ord CHR ''q'', ord CHR ''Q'', 27}
       \<and> (ch inp \<in> {ord CHR ''/'', ord CHR ''?''} \<longrightarrow> (\<exists>query. reply inp = Inr query))
     \<longrightarrow> (\<exists>state'. handle_key lower inp state = Next state' \<and> viewer_inv state')"
  proof (cases "reply inp")
    case (Inl e)
    from key_F_inv [OF assms, of lower] assms c hs c0 ce Inl show ?thesis
      unfolding handle_key_def Let_def
      by (simp add: key_defs inv_linenums_update)
  next
    case (Inr query)
    from sl [of query] qu [of query] key_F_inv [OF assms, of lower] assms c hs c0 ce Inr
    show ?thesis
      unfolding handle_key_def Let_def
      by (simp add: key_defs inv_linenums_update)
  qed
  have next_case: "\<forall>state'. handle_key lower inp state = Next state' \<longrightarrow> viewer_inv state'"
  proof (cases "handle_key lower inp state")
    case Quit
    then show ?thesis by simp
  next
    case (Raised e)
    then show ?thesis by simp
  next
    case (Next mid)
    have nq: "ch inp \<notin> {ord CHR ''q'', ord CHR ''Q'', 27}"
    proof
      assume "ch inp \<in> {ord CHR ''q'', ord CHR ''Q'', 27}"
      then have "handle_key lower inp state = Quit"
        by (simp add: handle_key_def)
      with Next show False by simp
    qed
    have pr: "ch inp \<in> {ord CHR ''/'', ord CHR ''?''} \<longrightarrow> (\<exists>query. reply inp = Inr query)"
    proof (cases "reply inp")
      case (Inl e)
      show ?thesis
      proof
        assume "ch inp \<in> {ord CHR ''/'', ord CHR ''?''}"
        with Inl have "handle_key lower inp state = Raised e"
          by (auto simp add: handle_key_def key_defs)
        with Next show "\<exists>query. reply inp = Inr query" by simp
      qed
    next
      case (Inr query)
      then show ?thesis by simp
    qed
    from total_case nq pr Next show ?thesis by auto
  qed
  have quit_case: "ch inp \<in> {ord CHR ''q'', ord CHR ''Q'', 27} \<longrightarrow> handle_key lower inp state = Quit"
    by (simp add: handle_key_def)
  have raise_case: "\<forall>e. ch inp \<in> {ord CHR ''/'', ord CHR ''?''} \<and> reply inp = Inl e
              \<longrightarrow> handle_key lower inp state = Raised e"
    by (auto simp add: handle_key_def key_defs)
  from next_case quit_case total_case raise_case show ?thesis by blast
qed

theorem handle_key_keeps_ranges_witness:
  "viewer_inv demo_state
   \<and> ch (press 24 KEY_DOWN []) \<notin> {ord CHR ''q'', ord CHR ''Q'', 27}
   \<and> ch (press 24 KEY_DOWN []) \<notin> {ord CHR ''/'', ord CHR ''?''}
   \<and> handle_key ascii_lower (press 24 KEY_DOWN []) demo_state = Next (demo_state\<lparr>cur := 1\<rparr>)
   \<and> viewer_inv (demo_state\<lparr>cur := 1\<rparr>)
   \<and> ch (press 24 (ord CHR ''q'') []) \<in> {ord CHR ''q'', ord CHR ''Q'', 27}
   \<and> handle_key ascii_lower (press 24 (ord CHR ''q'') []) demo_state = Quit
   \<and> ch (press_raising 24 (ord CHR ''/'') UnicodeDecodeError) \<in> {ord CHR ''/'', ord CHR ''?''}
   \<and> reply (press_raising 24 (ord CHR ''/'') UnicodeDecodeError) = Inl UnicodeDecodeError
   \<and> handle_key ascii_lower (press_raising 24 (ord CHR ''/'') UnicodeDecodeError) demo_state
       = Raised UnicodeDecodeError"
proof -
  have k: "ch (press 24 KEY_DOWN []) \<notin> {ord CHR ''q'', ord CHR ''Q'', 27}
           \<and> ch (press 24 KEY_DOWN []) \<notin> {ord CHR ''/'', ord CHR ''?''}"
    by (simp add: press_def key_defs)
  have e: "handle_key ascii_lower (press 24 KEY_DOWN []) demo_state = Next (demo_state\<lparr>cur := 1\<rparr>)"
    by (simp add: handle_key_def press_def key_defs clamp_def demo_state_def
        ViewerState_init_def demo_lines_def)
  have q: "ch (press 24 (ord CHR ''q'') []) \<in> {ord CHR ''q'', ord CHR ''Q'', 27}"
    by (simp add: press_def)
  have p: "ch (press_raising 24 (ord CHR ''/'') UnicodeDecodeError) \<in> {ord CHR ''/'', ord CHR ''?''}
           \<and> reply (press_raising 24 (ord CHR ''/'') UnicodeDecodeError) = Inl UnicodeDecodeError"
    by (simp add: press_raising_def)
  note d = handle_key_keeps_ranges [OF demo_state_inv, of ascii_lower "press 24 KEY_DOWN []"]
  note u = handle_key_keeps_ranges [OF demo_state_inv, of ascii_lower "press 24 (ord CHR ''q'') []"]
  note v = handle_key_keeps_ranges [OF demo_state_inv, of ascii_lower
      "press_raising 24 (ord CHR ''/'') UnicodeDecodeError"]
  from d e have i: "viewer_inv (demo_state\<lparr>cur := 1\<rparr>)" by blast
  from u q have uq: "handle_key ascii_lower (press 24 (ord CHR ''q'') []) demo_state = Quit"
    by blast
  from v p have vr: "handle_key ascii_lower (press_raising 24 (ord CHR ''/'') UnicodeDecodeError)
      demo_state = Raised UnicodeDecodeError"
    by blast
  from demo_state_inv k e i q uq p vr show ?thesis by blast
qed



lemma jump_to_search_q:
  "jump_to state res = Next state' \<Longrightarrow> search_q state' = search_q state"
  by (auto simp add: jump_to_def split: sum.splits if_splits)

lemma key_slash_search_q:
  "search_q state \<noteq> Some [] \<Longrightarrow> key_slash lower query state = Next state'
   \<Longrightarrow> search_q state' \<noteq> Some []"
  by (auto simp add: key_slash_def Let_def split: if_splits dest!: jump_to_search_q)

lemma key_question_search_q:
  "search_q state \<noteq> Some [] \<Longrightarrow> key_question lower query state = Next state'
   \<Longrightarrow> search_q state' \<noteq> Some []"
  by (auto simp add: key_question_def Let_def split: if_splits dest!: jump_to_search_q)

lemma key_F_search_q:
  "search_q state \<noteq> Some [] \<Longrightarrow> key_F lower state = Next state'
   \<Longrightarrow> search_q state' \<noteq> Some []"
  by (auto simp add: key_F_def split: option.splits dest!: jump_to_search_q)

lemma handle_key_search_q:
  assumes "search_q state \<noteq> Some []" and "handle_key lower inp state = Next state'"
  shows "search_q state' \<noteq> Some []"
proof (cases "reply inp")
  case (Inl e)
  with assms(2) key_F_search_q [OF assms(1), of lower state'] assms(1) show ?thesis
    unfolding handle_key_def Let_def
    by (auto split: if_splits)
next
  case (Inr query)
  with assms(2) key_slash_search_q [OF assms(1), of lower query state']
    key_question_search_q [OF assms(1), of lower query state']
    key_F_search_q [OF assms(1), of lower state'] assms(1)
  show ?thesis
    unfolding handle_key_def Let_def
    by (auto split: if_splits)
qed

lemma run_loop_search_q:
  "search_q state \<noteq> Some [] \<Longrightarrow> run_loop lower inps state = Next state'
   \<Longrightarrow> search_q state' \<noteq> Some []"
proof (induction inps arbitrary: state)
  case Nil
  then show ?case by simp
next
  case (Cons inp inps)
  from Cons.prems(2) obtain mid where m: "run_iter lower inp state = Next mid"
    and r: "run_loop lower inps mid = Next state'"
    by (auto split: step_result.splits)
  have v: "search_q (viewport_adjust (maxy inp) state) \<noteq> Some []"
    using Cons.prems(1) by (simp add: viewport_adjust_def)
  have "search_q mid \<noteq> Some []"
    using handle_key_search_q [OF v m [unfolded run_iter_def]] .
  from Cons.IH [OF this r] show ?case .
qed

text \<open>
  C9. An empty reply at the \<open>'/'\<close> or \<open>'?'\<close> prompt leaves the whole viewer state as it is.
  No key stores an empty query, so the stored query of a running viewer is absent or
  non-empty.
\<close>

theorem empty_query_is_noop:
  "(ch inp \<in> {ord CHR ''/'', ord CHR ''?''} \<and> reply inp = Inr []
      \<longrightarrow> handle_key lower inp state = Next state)
   \<and> (\<forall>state'. search_q state \<noteq> Some [] \<and> handle_key lower inp state = Next state'
      \<longrightarrow> search_q state' \<noteq> Some [])
   \<and> (\<forall>state'. run lower inps ls fname = Next state' \<longrightarrow> search_q state' \<noteq> Some [])"
proof (intro conjI allI impI)
  assume "ch inp \<in> {ord CHR ''/'', ord CHR ''?''} \<and> reply inp = Inr []"
  then show "handle_key lower inp state = Next state"
    by (auto simp add: handle_key_def key_defs key_slash_def key_question_def)
next
  fix state'
  assume "search_q state \<noteq> Some [] \<and> handle_key lower inp state = Next state'"
  then show "search_q state' \<noteq> Some []"
    using handle_key_search_q by blast
next
  fix state'
  assume "run lower inps ls fname = Next state'"
  moreover have "search_q (ViewerState_init ls fname) \<noteq> Some []"
    by (simp add: ViewerState_init_def)
  ultimately show "search_q state' \<noteq> Some []"
    unfolding run_def using run_loop_search_q by blast
qed

theorem empty_query_is_noop_witness:
  "ch (press 24 (ord CHR ''/'') []) \<in> {ord CHR ''/'', ord CHR ''?''}
   \<and> reply (press 24 (ord CHR ''/'') []) = Inr []
   \<and> handle_key ascii_lower (press 24 (ord CHR ''/'') []) demo_state = Next demo_state
   \<and> search_q demo_state \<noteq> Some []
   \<and> run ascii_lower [press 24 (ord CHR ''?'') []] demo_lines (str ''demo.txt'') = Next demo_state"
proof -
  have k: "ch (press 24 (ord CHR ''/'') []) \<in> {ord CHR ''/'', ord CHR ''?''}
           \<and> reply (press 24 (ord CHR ''/'') []) = Inr []"
    by (simp add: press_def)
  have r: "run ascii_lower [press 24 (ord CHR ''?'') []] demo_lines (str ''demo.txt'') = Next demo_state"
    by (simp add: run_def run_iter_def handle_key_def key_question_def press_def key_defs
        viewport_adjust_def demo_state_def ViewerState_init_def)
  have q: "search_q demo_state \<noteq> Some []"
    by (simp add: demo_state_def ViewerState_init_def)
  from empty_query_is_noop [of "press 24 (ord CHR ''/'') []" ascii_lower demo_state
      "[press 24 (ord CHR ''?'') []]" demo_lines "str ''demo.txt''"] k
  have "handle_key ascii_lower (press 24 (ord CHR ''/'') []) demo_state = Next demo_state"
    by blast
  with k r q show ?thesis by blast
qed

text \<open>
  C10. With a stored non-empty query, the \<open>'F'\<close> key searches forward from the line after
  the current one. On a match the new current index is strictly greater than the old one
  and at most \<open>total - 1\<close>; without a match the state is unchanged.
\<close>

theorem find_next_moves_forward:
  assumes "viewer_inv state" and "search_q state = Some query" and "query \<noteq> []"
    and "ch inp = ord CHR ''F''"
  shows "\<exists>r. search_forward lower state query (Some (cur state + 1)) = Inr r
           \<and> (r \<noteq> - 1 \<longrightarrow> handle_key lower inp state = Next (state\<lparr>cur := r\<rparr>)
                 \<and> cur state < r \<and> r \<le> total state - 1)
           \<and> (r = - 1 \<longrightarrow> handle_key lower inp state = Next state)"
proof -
  have hk: "handle_key lower inp state = key_F lower state"
    using assms(2,3,4) by (simp add: handle_key_def key_defs truthy_def)
  from key_F_result [OF assms(1,2), of lower]
  obtain r where s: "search_forward lower state query (Some (cur state + 1)) = Inr r"
    and k: "key_F lower state = Next (state\<lparr>cur := (if r \<noteq> - 1 then r else cur state)\<rparr>)"
    and d: "r = - 1 \<or> cur state < r \<and> r < total state"
    by blast
  from s k d hk show ?thesis by auto
qed

theorem find_next_moves_forward_witness:
  "viewer_inv (demo_state\<lparr>search_q := Some (str ''a'')\<rparr>)
   \<and> search_q (demo_state\<lparr>search_q := Some (str ''a'')\<rparr>) = Some (str ''a'') \<and> str ''a'' \<noteq> []
   \<and> ch (press 24 (ord CHR ''F'') []) = ord CHR ''F''
   \<and> search_forward ascii_lower (demo_state\<lparr>search_q := Some (str ''a'')\<rparr>) (str ''a'') (Some 1) = Inr 1
   \<and> handle_key ascii_lower (press 24 (ord CHR ''F'') []) (demo_state\<lparr>search_q := Some (str ''a'')\<rparr>)
       = Next (demo_state\<lparr>search_q := Some (str ''a''), cur := 1\<rparr>)"
proof -
  have i: "viewer_inv (demo_state\<lparr>search_q := Some (str ''a'')\<rparr>)"
    by (simp add: viewer_inv_def state_wf_def demo_state_def ViewerState_init_def demo_lines_def)
  have q: "search_q (demo_state\<lparr>search_q := Some (str ''a'')\<rparr>) = Some (str ''a'')" by simp
  have n: "str ''a'' \<noteq> []" by simp
  have c: "ch (press 24 (ord CHR ''F'') []) = ord CHR ''F''" by (simp add: press_def)
  have s: "search_forward ascii_lower (demo_state\<lparr>search_q := Some (str ''a'')\<rparr>) (str ''a'') (Some 1) = Inr 1"
    by (simp add: search_forward_def forward_scan.simps demo_state_def ViewerState_init_def
      demo_lines_def py_getitem_def py_in_def ascii_lower_def sublist_code)
  have z: "cur (demo_state\<lparr>search_q := Some (str ''a'')\<rparr>) + 1 = 1"
    by (simp add: demo_state_def ViewerState_init_def)
  from find_next_moves_forward [OF i q n c, of ascii_lower] s z
  have "handle_key ascii_lower (press 24 (ord CHR ''F'') []) (demo_state\<lparr>search_q := Some (str ''a'')\<rparr>)
       = Next (demo_state\<lparr>search_q := Some (str ''a''), cur := 1\<rparr>)"
    by auto
  with i q n c s show ?thesis by simp
qed

section \<open>Text loader\<close>

lemma splitlines_from_empty:
  "splitlines_from acc data = [] \<longleftrightarrow> acc = [] \<and> data = []"
  by (induction acc data rule: splitlines_from.induct) auto

lemma splitlines_empty: "splitlines data = [] \<longleftrightarrow> data = []"
  by (simp add: splitlines_def splitlines_from_empty)

lemma read_text_file:
  assumes "name \<noteq> str ''-''"
  shows "read_text io (Some name) =
           (case open_read io name of
              None \<Rightarrow> Inl IOError
            | Some raw \<Rightarrow>
                Inr (if splitlines (decode_replace io raw) = [] then [[]]
                     else splitlines (decode_replace io raw)))"
  using assms by (simp add: read_text_def Let_def split: option.splits)

lemma read_text_stdin:
  "read_text io (Some (str ''-'')) =
     (case stdin_read io of
        Inl e \<Rightarrow> Inl e
      | Inr data \<Rightarrow> Inr (if splitlines data = [] then [[]] else splitlines data))"
  by (simp add: read_text_def Let_def split: sum.splits)

text \<open>
  C6. Every line buffer the loader returns has at least one line. When decoding and
  splitting yield no line, which happens exactly for the empty text, the loader returns
  the single empty line, from a file as from standard input.
\<close>

theorem read_text_nonempty:
  "(\<forall>ls. read_text io p = Inr ls \<longrightarrow> 1 \<le> length ls)
   \<and> (\<forall>name raw. name \<noteq> str ''-'' \<and> open_read io name = Some raw
         \<and> splitlines (decode_replace io raw) = [] \<longrightarrow> read_text io (Some name) = Inr [[]])
   \<and> (\<forall>data. stdin_read io = Inr data \<and> splitlines data = []
         \<longrightarrow> read_text io (Some (str ''-'')) = Inr [[]])
   \<and> (\<forall>data. splitlines data = [] \<longleftrightarrow> data = [])"
proof (intro conjI allI impI)
  fix ls
  assume "read_text io p = Inr ls"
  then show "1 \<le> length ls"
    by (auto simp add: read_text_def Let_def Suc_le_eq split: option.splits sum.splits if_splits)
next
  fix name raw
  assume "name \<noteq> str ''-'' \<and> open_read io name = Some raw
         \<and> splitlines (decode_replace io raw) = []"
  then show "read_text io (Some name) = Inr [[]]"
    using read_text_file [of name io] by simp
next
  fix data
  assume "stdin_read io = Inr data \<and> splitlines data = []"
  then show "read_text io (Some (str ''-'')) = Inr [[]]"
    using read_text_stdin [of io] by simp
next
  fix data
  show "splitlines data = [] \<longleftrightarrow> data = []" by (rule splitlines_empty)
qed

theorem read_text_nonempty_witness:
  "str ''a.txt'' \<noteq> str ''-'' \<and> open_read (demo_io [] (Inr [])) (str ''a.txt'') = Some []
   \<and> splitlines (decode_replace (demo_io [] (Inr [])) []) = []
   \<and> read_text (demo_io [] (Inr [])) (Some (str ''a.txt'')) = Inr [[]]
   \<and> stdin_read (demo_io [] (Inr [])) = Inr []
   \<and> read_text (demo_io [] (Inr [])) (Some (str ''-'')) = Inr [[]]
   \<and> read_text (demo_io [97, 10, 98, 10, 99] (Inr [])) (Some (str ''a.txt''))
        = Inr [str ''a'', str ''b'', str ''c'']
   \<and> 1 \<le> length [str ''a'', str ''b'', str ''c'']"
proof -
  have a: "str ''a.txt'' \<noteq> str ''-'' \<and> open_read (demo_io [] (Inr [])) (str ''a.txt'') = Some []
      \<and> splitlines (decode_replace (demo_io [] (Inr [])) []) = []"
    by (simp add: demo_io_def decode_ascii_def splitlines_def)
  have b: "stdin_read (demo_io [] (Inr [])) = Inr [] \<and> splitlines [] = []"
    by (simp add: demo_io_def splitlines_def)
  have c: "read_text (demo_io [97, 10, 98, 10, 99] (Inr [])) (Some (str ''a.txt''))
        = Inr [str ''a'', str ''b'', str ''c'']"
    by (simp add: read_text_def demo_io_def decode_ascii_def splitlines_def is_linebreak_def)
  note t = read_text_nonempty [of "demo_io [] (Inr [])" "None"]
  note u = read_text_nonempty [of "demo_io [97, 10, 98, 10, 99] (Inr [])" "Some (str ''a.txt'')"]
  from t a have "read_text (demo_io [] (Inr [])) (Some (str ''a.txt'')) = Inr [[]]" by blast
  moreover from t b have "read_text (demo_io [] (Inr [])) (Some (str ''-'')) = Inr [[]]" by blast
  moreover from u c have "1 \<le> length [str ''a'', str ''b'', str ''c'']" by blast
  ultimately show ?thesis using a b c by blast
qed

lemma read_text_file_outcome:
  assumes "name \<noteq> str ''-''"
  shows "(read_text io (Some name) = Inl IOError \<longleftrightarrow> open_read io name = None)
         \<and> (\<forall>raw. open_read io name = Some raw \<longrightarrow> (\<exists>ls. read_text io (Some name) = Inr ls))"
  using read_text_file [OF assms, of io] by (auto split: option.splits)

text \<open>
  C8. The specification says that the loader raises \<open>IOError\<close> exactly when the path
  cannot be opened or read, and that it never fails on decoding, since undecodable bytes
  are replaced. For a file this holds (\<open>read_text_file_outcome\<close>):
  the bytes are decoded with \<open>errors="replace"\<close>. For the path \<open>-\<close> the code calls
  \<open>sys.stdin.read()\<close>, whose decoding is the text stream's own; when that raises
  \<open>UnicodeDecodeError\<close> the loader fails with it, while the same bytes in a file load.
\<close>

theorem read_text_stdin_decode_error:
  "read_text (demo_io [] (Inl UnicodeDecodeError)) (Some (str ''-'')) = Inl UnicodeDecodeError
   \<and> read_text (demo_io [255] (Inl UnicodeDecodeError)) (Some (str ''a.txt'')) = Inr [[65533]]"
  by (simp add: read_text_def demo_io_def decode_ascii_def splitlines_def is_linebreak_def)

section \<open>Directory browser\<close>

lemma list_entries_nonempty: "1 \<le> int (length (list_entries l))"
  by (simp add: list_entries_def split: option.splits)

lemma browse_iter_keeps_idx:
  assumes "browse_iter os inp b = Browsing b'" and "idx_in_entries inp b"
  shows "idx_in_entries inp b' \<and> entries b' = list_entries (listdir inp)"
proof -
  have n: "0 \<le> int (length (list_entries (listdir inp))) - 1"
    using list_entries_nonempty [of "listdir inp"] by linarith
  from assms clamp_range [OF n] show ?thesis
    unfolding browse_iter_def Let_def idx_in_entries_def
    by (auto split: if_splits sum.splits)
qed

lemma browse_iter_no_crash:
  assumes "idx_in_entries inp b"
  shows "browse_iter os inp b \<noteq> Crashed e"
  using assms unfolding browse_iter_def Let_def idx_in_entries_def py_getitem_def
  by (auto split: if_splits sum.splits)

text \<open>
  C5. The specification says that whenever the browser opens or highlights the selected
  entry, the index is inside the entry list of that pass, also after the list shrank.
  Within one listing
  the keys keep the index inside (\<open>browse_iter_keeps_idx\<close>), but a new listing is not
  followed by a new clamp: after two moves down in a directory with two entries the
  index is 2; when the next listing has one entry less, or fails, the index is outside
  it, no row is highlighted, and Enter raises \<open>IndexError\<close>.
\<close>

theorem browse_dir_index_error:
  "browse_dir posix [browse_press (Some [str ''a'', str ''b'']) KEY_DOWN,
                     browse_press (Some [str ''a'', str ''b'']) KEY_DOWN] (str ''/d'')
     = Browsing \<lparr>path = str ''/d'', entries = [str ''..'', str ''a'', str ''b''], idx = 2\<rparr>
   \<and> \<not> idx_in_entries (browse_press (Some [str ''a'']) 10)
         \<lparr>path = str ''/d'', entries = [str ''..'', str ''a'', str ''b''], idx = 2\<rparr>
   \<and> browse_dir posix [browse_press (Some [str ''a'', str ''b'']) KEY_DOWN,
                       browse_press (Some [str ''a'', str ''b'']) KEY_DOWN,
                       browse_press (Some [str ''a'']) 10] (str ''/d'')
       = Crashed IndexError
   \<and> browse_dir posix [browse_press (Some [str ''a'', str ''b'']) KEY_DOWN,
                       browse_press (Some [str ''a'', str ''b'']) KEY_DOWN,
                       browse_press None 10] (str ''/d'')
       = Crashed IndexError
   \<and> list_all (\<lambda>row. \<not> snd row)
       (render_rows posix (browse_press (Some [str ''a'']) 10) (str ''/d'')
          (list_entries (Some [str ''a''])) 2)"
  by (simp add: browse_dir_def browse_iter_def browse_press_def key_defs list_entries_def
      clamp_def py_getitem_def idx_in_entries_def render_rows_def py_slice_to_def enumerate_eq_zip)

end
